theory Spec2Isabelle
  imports Main "HOL-Library.Word"
begin

unbundle bit_operations_syntax

section \<open>Data model of \<^verbatim>\<open>internal/fs/stable_file_watcher.go\<close>\<close>

text \<open>
  Go's \<^verbatim>\<open>error\<close> values. \<open>ErrExt\<close> is an error handed back by a collaborator
  (fsnotify, ioutil), \<open>ErrNotExist\<close> is what \<^verbatim>\<open>os.Stat\<close> gives for a missing path,
  and \<open>Wrapf err msg\<close> is \<^verbatim>\<open>errors.Wrapf(err, msg)\<close> on a non-nil \<open>err\<close>.
  A nil error is \<open>None\<close> of \<open>error option\<close>.
\<close>

datatype error = ErrExt string | ErrNotExist string | Wrapf error string

text \<open>The two methods of \<^verbatim>\<open>os.FileInfo\<close> that the watcher calls.\<close>

record FileInfo =
  Name :: string
  IsDir :: bool

text \<open>\<^verbatim>\<open>fsnotify.Event\<close>: the path and the bit mask of operations.\<close>

record Event =
  EvName :: string
  Op :: "32 word"

text \<open>\<^verbatim>\<open>FileEvent\<close>, the value sent on \<^verbatim>\<open>Events\<close>.\<close>

record FileEvent =
  Path :: string

text \<open>
  \<^verbatim>\<open>StableFileWatcher\<close>. The three reference fields are modelled by the part of their
  state that the code can change: a channel by whether it has been closed, the
  directory's \<^verbatim>\<open>*fsnotify.Watcher\<close> by whether \<^verbatim>\<open>Close\<close> has been called on it.
\<close>

record StableFileWatcher =
  watchDir :: string
  dirWatcher_closed :: bool
  done_closed :: bool
  StableThreshold :: int
  Events_closed :: bool

section \<open>Construction\<close>

text \<open>
  \<^verbatim>\<open>readFiles\<close>: list the directory and keep the entries that are not directories,
  in the order of the listing. \<open>ReadDir\<close> is \<^verbatim>\<open>ioutil.ReadDir\<close>, a parameter. The
  line \<^verbatim>\<open>found existing video\<close> that is logged for each entry kept carries the name of
  the entry and nothing else; it can be read off the result.
\<close>

definition readFiles :: "(string \<Rightarrow> error + FileInfo list) \<Rightarrow> string \<Rightarrow> error + FileInfo list" where
  "readFiles ReadDir dir =
     (case ReadDir dir of
        Inl err \<Rightarrow> Inl (Wrapf err (''unable to list '' @ dir))
      | Inr items \<Rightarrow> Inr (filter (\<lambda>item. \<not> IsDir item) items))"

text \<open>
  \<^verbatim>\<open>NewStableFileWatcher\<close>. The outcomes of the three calls that can fail are
  parameters: \<open>newWatcher\<close> is the error of \<^verbatim>\<open>fsnotify.NewWatcher()\<close>, \<open>ReadDir\<close> the
  directory listing, \<open>Add\<close> the error of \<^verbatim>\<open>dirWatcher.Add\<close>. \<open>Inl\<close> is the return
  \<^verbatim>\<open>(nil, err)\<close>; \<open>Inr (w, files)\<close> is the return \<^verbatim>\<open>(w, nil)\<close> together with the argument
  of the goroutine \<^verbatim>\<open>go w.start(existingFiles)\<close> that has been started.
\<close>

definition NewStableFileWatcher ::
  "error option \<Rightarrow> (string \<Rightarrow> error + FileInfo list) \<Rightarrow> (string \<Rightarrow> error option) \<Rightarrow>
   string \<Rightarrow> int \<Rightarrow> error + (StableFileWatcher \<times> FileInfo list)" where
  "NewStableFileWatcher newWatcher ReadDir Add dir stableThreshold =
     (let w = \<lparr>watchDir = dir, dirWatcher_closed = False, done_closed = False,
               StableThreshold = stableThreshold, Events_closed = False\<rparr>
      in case newWatcher of
           Some err \<Rightarrow> Inl (Wrapf err ''unable to create a file system watcher'')
         | None \<Rightarrow>
            (case readFiles ReadDir (watchDir w) of
               Inl err \<Rightarrow> Inl err
             | Inr existingFiles \<Rightarrow>
                (case Add (watchDir w) of
                   Some err \<Rightarrow> Inl (Wrapf err (''unable to start watching '' @ dir))
                 | None \<Rightarrow> Inr (w, existingFiles))))"

section \<open>The running system\<close>

text \<open>
  Modelled from the spec: the operation kinds \<open>{create, write, remove, rename, other}\<close>
  of a notification. The constants are declared by fsnotify, which is not part of the
  sources; they are the bits \<^verbatim>\<open>1 << iota\<close> in the order Create, Write, Remove,
  Rename, Chmod.
\<close>

definition Create :: "32 word" where "Create = 1"
definition Write :: "32 word" where "Write = 2"
definition Remove :: "32 word" where "Remove = 4"
definition Rename :: "32 word" where "Rename = 8"
definition Chmod :: "32 word" where "Chmod = 16"

text \<open>
  A \<^verbatim>\<open>time.Timer\<close>: \<open>active\<close> holds while the runtime still has to fire it, \<open>due\<close>
  is the instant it was armed for, and \<open>chanC\<close> is the number of values waiting in
  its channel \<^verbatim>\<open>C\<close>, which has a buffer of one. This is the timer of the Go runtime
  that the idiom \<^verbatim>\<open>if !timer.Stop() { <-timer.C }\<close> is written for: a fired timer leaves
  its value in the channel until it is received, and \<^verbatim>\<open>Stop\<close> does not remove it.
\<close>

record timer =
  active :: bool
  due :: int
  chanC :: nat

text \<open>The runtime's \<^verbatim>\<open>when(d)\<close>: a duration that is not positive means now.\<close>

definition whenT :: "int \<Rightarrow> int \<Rightarrow> int" where
  "whenT t d = (if d \<le> 0 then t else t + d)"

definition NewTimer :: "int \<Rightarrow> int \<Rightarrow> timer" where
  "NewTimer t d = \<lparr>active = True, due = whenT t d, chanC = 0\<rparr>"

text \<open>
  The runtime fires the timer: it leaves the set of pending timers and a value is
  sent on \<^verbatim>\<open>C\<close> without blocking: when the buffer is full the value is dropped.
\<close>

definition sendTime :: "timer \<Rightarrow> timer" where
  "sendTime tm = tm\<lparr>active := False, chanC := (if chanC tm < 1 then chanC tm + 1 else chanC tm)\<rparr>"

text \<open>
  \<^verbatim>\<open>timer.Stop()\<close> returns whether the call stopped the timer (\<open>active\<close> before
  the call) and leaves the timer inactive; it does not touch the channel.
  \<^verbatim>\<open>timer.Reset(d)\<close> arms it again.
\<close>

definition Stop :: "timer \<Rightarrow> bool \<times> timer" where
  "Stop tm = (active tm, tm\<lparr>active := False\<rparr>)"

definition Reset :: "int \<Rightarrow> int \<Rightarrow> timer \<Rightarrow> timer" where
  "Reset t d tm = tm\<lparr>active := True, due := whenT t d\<rparr>"

text \<open>
  One goroutine running \<^verbatim>\<open>waitUntilFileIsStable(path)\<close>. The program counter names
  the statement the goroutine executes next:
  \<^item> \<open>AtNewWatcher\<close>: \<^verbatim>\<open>fw, err := fsnotify.NewWatcher()\<close> (line 115);
  \<^item> \<open>AtAdd\<close>: \<^verbatim>\<open>err = fw.Add(path)\<close> (line 121), and on success
    \<^verbatim>\<open>time.NewTimer(w.StableThreshold)\<close> (line 127);
  \<^item> \<open>AtSelect\<close>: the \<^verbatim>\<open>select\<close> of the loop (line 131);
  \<^item> \<open>AtStop\<close>: \<^verbatim>\<open>timer.Stop()\<close> in the case \<^verbatim>\<open><-fw.Events\<close> (line 136);
  \<^item> \<open>AtDrain\<close>: \<^verbatim>\<open><-timer.C\<close> after \<^verbatim>\<open>Stop\<close> returned false (line 137);
  \<^item> \<open>AtReset\<close>: \<^verbatim>\<open>timer.Reset(w.StableThreshold)\<close> (line 139);
  \<^item> \<open>AtStat\<close>: \<^verbatim>\<open>os.Stat(path)\<close> in the case \<^verbatim>\<open><-timer.C\<close> (line 142);
  \<^item> \<open>AtSend\<close>: \<^verbatim>\<open>w.Events <- FileEvent{Path: path}\<close> (line 146);
  \<^item> \<open>Returned\<close>: the function has returned and its deferred calls have run.
  \<open>fwOpen\<close> holds from the creation of \<^verbatim>\<open>fw\<close> to the deferred \<^verbatim>\<open>fw.Close()\<close>;
  \<open>fwErrors\<close> are the errors that \<^verbatim>\<open>fw\<close> offers on its \<^verbatim>\<open>Errors\<close> channel.
\<close>

datatype tpc = AtNewWatcher | AtAdd | AtSelect | AtStop | AtDrain | AtReset | AtStat | AtSend | Returned

record tracker =
  path :: string
  pc :: tpc
  fwOpen :: bool
  tim :: timer
  fwErrors :: "error list"

text \<open>The goroutine \<^verbatim>\<open>go w.waitUntilFileIsStable(path)\<close> right after it is started.\<close>

definition waitUntilFileIsStable :: "string \<Rightarrow> tracker" where
  "waitUntilFileIsStable p =
     \<lparr>path = p, pc = AtNewWatcher, fwOpen = False,
      tim = \<lparr>active = False, due = 0, chanC = 0\<rparr>, fwErrors = []\<rparr>"

text \<open>
  The goroutine running \<^verbatim>\<open>start\<close>: before its first loop (with the paths it will
  track), at the \<^verbatim>\<open>select\<close>, or returned.
\<close>

datatype dpc = DStart "string list" | DSelect | DReturned

text \<open>
  The whole system: the watcher, the clock, the paths that exist in the file system
  (those for which \<^verbatim>\<open>os.Stat\<close> succeeds),
  the events the consumer has received from \<^verbatim>\<open>Events\<close>, the errors offered on
  \<^verbatim>\<open>dirWatcher.Errors\<close>, the goroutines, what has been logged, and whether a
  goroutine has panicked (which ends the process).
\<close>

record system = StableFileWatcher +
  now :: int
  fs :: "string set"
  received :: "FileEvent list"
  dirErrors :: "error list"
  dir :: dpc
  trackers :: "tracker list"
  logs :: "error list"
  panicked :: bool

text \<open>
  The system when \<^verbatim>\<open>NewStableFileWatcher\<close> returns \<^verbatim>\<open>(w, nil)\<close>: the goroutine
  \<^verbatim>\<open>start(existingFiles)\<close> has been started and has not run yet. The paths
  \<^verbatim>\<open>filepath.Join(w.watchDir, file.Name())\<close> of its first loop are computed here,
  with \<^verbatim>\<open>filepath.Join\<close> as the parameter \<open>Join\<close>.
\<close>

definition boot ::
  "(string \<Rightarrow> string \<Rightarrow> string) \<Rightarrow> StableFileWatcher \<Rightarrow> FileInfo list \<Rightarrow> int \<Rightarrow> string set \<Rightarrow> system" where
  "boot Join w existingFiles t files =
     \<lparr>watchDir = watchDir w, dirWatcher_closed = dirWatcher_closed w,
      done_closed = done_closed w, StableThreshold = StableThreshold w,
      Events_closed = Events_closed w,
      now = t, fs = files, received = [], dirErrors = [],
      dir = DStart (map (\<lambda>file. Join (watchDir w) (Name file)) existingFiles),
      trackers = [], logs = [], panicked = False\<rparr>"

text \<open>\<^verbatim>\<open>os.Stat(path)\<close>, by its error.\<close>

definition os_Stat :: "string set \<Rightarrow> string \<Rightarrow> error option" where
  "os_Stat files p = (if p \<in> files then None else Some (ErrNotExist p))"

text \<open>
  \<^verbatim>\<open>Close\<close>: \<^verbatim>\<open>w.dirWatcher.Close()\<close>, then \<^verbatim>\<open>close(w.done)\<close>. Closing a channel
  that is closed already panics.
\<close>

definition Close :: "system \<Rightarrow> system" where
  "Close s =
     (let s1 = s\<lparr>dirWatcher_closed := True\<rparr>
      in if done_closed s1 then s1\<lparr>panicked := True\<rparr> else s1\<lparr>done_closed := True\<rparr>)"

text \<open>Updating tracker \<open>i\<close>, and the deferred calls of a return from the loop.\<close>

definition upd :: "nat \<Rightarrow> (tracker \<Rightarrow> tracker) \<Rightarrow> system \<Rightarrow> system" where
  "upd i f s = s\<lparr>trackers := (trackers s)[i := f (trackers s ! i)]\<rparr>"

definition at :: "nat \<Rightarrow> tpc \<Rightarrow> system \<Rightarrow> bool" where
  "at i p s = (i < length (trackers s) \<and> pc (trackers s ! i) = p)"

definition ret :: "tracker \<Rightarrow> tracker" where
  "ret t = t\<lparr>pc := Returned, fwOpen := False, tim := snd (Stop (tim t))\<rparr>"

text \<open>
  The atomic actions. Those of the surroundings: the clock advances, a path appears
  or disappears, a notification source offers an error, the caller calls
  \<^verbatim>\<open>Close\<close>, the consumer receives the event that tracker \<open>i\<close> is sending, the
  runtime fires the timer of tracker \<open>i\<close>. Those of \<^verbatim>\<open>start\<close>: its first loop, and
  the two cases of its \<^verbatim>\<open>select\<close>, the second with the notification received.
  Those of tracker \<open>i\<close>: one for each statement named by \<open>tpc\<close>, the calls to
  fsnotify with the error they return, the \<^verbatim>\<open>select\<close> with the case taken.
\<close>

datatype action =
    Tick nat
  | FsCreate string
  | FsRemove string
  | DirError error
  | FwError nat error
  | CallClose
  | Consume nat
  | Fire nat
  | DirSpawnExisting
  | DirSelDone
  | DirSelEvent Event
  | TNewWatcher nat "error option"
  | TAdd nat "error option"
  | TSelDone nat
  | TSelEvent nat
  | TSelTimer nat
  | TStop nat
  | TDrain nat
  | TReset nat
  | TStat nat
  | TSendClosed nat

text \<open>
  What an action does where it can happen; \<open>None\<close> where it cannot (the goroutine is
  elsewhere, or blocked). A \<^verbatim>\<open>select\<close> may take any case that is ready: the case
  \<^verbatim>\<open><-w.done\<close> once \<^verbatim>\<open>done\<close> is closed, the case \<^verbatim>\<open><-timer.C\<close> when a value waits in
  the channel, and the case of a notification whenever the source delivers one. The
  send on \<^verbatim>\<open>Events\<close>, which has no buffer, completes when the consumer receives
  (\<open>Consume\<close>); on the closed channel it panics (\<open>TSendClosed\<close>). A return after
  the loop has been entered runs the deferred \<^verbatim>\<open>timer.Stop()\<close> and \<^verbatim>\<open>fw.Close()\<close>;
  the return on a failed \<^verbatim>\<open>fw.Add\<close> runs \<^verbatim>\<open>fw.Close()\<close> alone, and the return on a
  failed \<^verbatim>\<open>fsnotify.NewWatcher\<close> has nothing deferred.
\<close>

fun exec :: "action \<Rightarrow> system \<Rightarrow> system option" where
  "exec (Tick n) s = Some (s\<lparr>now := now s + int n\<rparr>)"
| "exec (FsCreate p) s = Some (s\<lparr>fs := insert p (fs s)\<rparr>)"
| "exec (FsRemove p) s = Some (s\<lparr>fs := fs s - {p}\<rparr>)"
| "exec (DirError e) s = Some (s\<lparr>dirErrors := dirErrors s @ [e]\<rparr>)"
| "exec (FwError i e) s =
     (if i < length (trackers s) \<and> fwOpen (trackers s ! i)
      then Some (upd i (\<lambda>t. t\<lparr>fwErrors := fwErrors t @ [e]\<rparr>) s) else None)"
| "exec CallClose s = Some (Close s)"
| "exec (Consume i) s =
     (if at i AtSend s \<and> \<not> Events_closed s
      then Some ((upd i ret s)\<lparr>received := received s @ [\<lparr>Path = path (trackers s ! i)\<rparr>]\<rparr>)
      else None)"
| "exec (Fire i) s =
     (if i < length (trackers s) \<and> active (tim (trackers s ! i)) \<and> due (tim (trackers s ! i)) \<le> now s
      then Some (upd i (\<lambda>t. t\<lparr>tim := sendTime (tim t)\<rparr>) s) else None)"
| "exec DirSpawnExisting s =
     (case dir s of
        DStart paths \<Rightarrow>
          Some (s\<lparr>trackers := trackers s @ map waitUntilFileIsStable paths, dir := DSelect\<rparr>)
      | _ \<Rightarrow> None)"
| "exec DirSelDone s =
     (if dir s = DSelect \<and> done_closed s
      then Some (if Events_closed s then s\<lparr>panicked := True\<rparr>
                 else s\<lparr>Events_closed := True, dir := DReturned\<rparr>)
      else None)"
| "exec (DirSelEvent fileEvent) s =
     (if dir s = DSelect
      then Some (if Op fileEvent AND Create = Create
                 then s\<lparr>trackers := trackers s @ [waitUntilFileIsStable (EvName fileEvent)]\<rparr>
                 else s)
      else None)"
| "exec (TNewWatcher i r) s =
     (if at i AtNewWatcher s
      then Some (case r of
                   Some err \<Rightarrow>
                     (upd i (\<lambda>t. t\<lparr>pc := Returned\<rparr>) s)
                       \<lparr>logs := logs s @ [Wrapf err (''unable to create watcher, skipping '' @ path (trackers s ! i))]\<rparr>
                 | None \<Rightarrow> upd i (\<lambda>t. t\<lparr>pc := AtAdd, fwOpen := True\<rparr>) s)
      else None)"
| "exec (TAdd i r) s =
     (if at i AtAdd s
      then Some (case r of
                   Some err \<Rightarrow>
                     (upd i (\<lambda>t. t\<lparr>pc := Returned, fwOpen := False\<rparr>) s)
                       \<lparr>logs := logs s @ [Wrapf err (''unable to watch '' @ path (trackers s ! i) @ '', skipping'')]\<rparr>
                 | None \<Rightarrow> upd i (\<lambda>t. t\<lparr>pc := AtSelect, tim := NewTimer (now s) (StableThreshold s)\<rparr>) s)
      else None)"
| "exec (TSelDone i) s =
     (if at i AtSelect s \<and> done_closed s then Some (upd i ret s) else None)"
| "exec (TSelEvent i) s =
     (if at i AtSelect s then Some (upd i (\<lambda>t. t\<lparr>pc := AtStop\<rparr>) s) else None)"
| "exec (TSelTimer i) s =
     (if at i AtSelect s \<and> 0 < chanC (tim (trackers s ! i))
      then Some (upd i (\<lambda>t. t\<lparr>pc := AtStat, tim := (tim t)\<lparr>chanC := chanC (tim t) - 1\<rparr>\<rparr>) s)
      else None)"
| "exec (TStop i) s =
     (if at i AtStop s
      then Some (upd i (\<lambda>t. t\<lparr>pc := (if fst (Stop (tim t)) then AtReset else AtDrain),
                               tim := snd (Stop (tim t))\<rparr>) s)
      else None)"
| "exec (TDrain i) s =
     (if at i AtDrain s \<and> 0 < chanC (tim (trackers s ! i))
      then Some (upd i (\<lambda>t. t\<lparr>pc := AtReset, tim := (tim t)\<lparr>chanC := chanC (tim t) - 1\<rparr>\<rparr>) s)
      else None)"
| "exec (TReset i) s =
     (if at i AtReset s
      then Some (upd i (\<lambda>t. t\<lparr>pc := AtSelect, tim := Reset (now s) (StableThreshold s) (tim t)\<rparr>) s)
      else None)"
| "exec (TStat i) s =
     (if at i AtStat s
      then Some (case os_Stat (fs s) (path (trackers s ! i)) of
                   Some err \<Rightarrow>
                     (upd i ret s)
                       \<lparr>logs := logs s @ [Wrapf err (''unable to stat '' @ path (trackers s ! i) @ '', skipping'')]\<rparr>
                 | None \<Rightarrow> upd i (\<lambda>t. t\<lparr>pc := AtSend\<rparr>) s)
      else None)"
| "exec (TSendClosed i) s =
     (if at i AtSend s \<and> Events_closed s then Some (s\<lparr>panicked := True\<rparr>) else None)"

text \<open>A panic ends the process: nothing happens after it.\<close>

definition step :: "action \<Rightarrow> system \<Rightarrow> system option" where
  "step a s = (if panicked s then None else exec a s)"

text \<open>A schedule is a list of actions; it runs when each action can happen in turn.\<close>

fun run :: "action list \<Rightarrow> system \<Rightarrow> system option" where
  "run [] s = Some s"
| "run (a # as) s = (case step a s of None \<Rightarrow> None | Some s' \<Rightarrow> run as s')"

section \<open>Predicates used in the properties\<close>

text \<open>
  The expirations a timer still owes its owner: the one the runtime has yet to fire,
  and the ones delivered to the channel and not yet received.
\<close>

definition pending :: "timer \<Rightarrow> nat" where
  "pending tm = (if active tm then 1 else 0) + chanC tm"

text \<open>
  The state of the timer at each statement of \<^verbatim>\<open>waitUntilFileIsStable\<close>: not yet
  created before the loop, exactly one expiration owed at the \<^verbatim>\<open>select\<close> and when
  \<^verbatim>\<open>Stop\<close> is called, a fired value in the channel when it is drained, nothing owed when
  it is reset and in the case \<^verbatim>\<open><-timer.C\<close>, stopped after the return.
\<close>

definition tracker_ok :: "tracker \<Rightarrow> bool" where
  "tracker_ok t =
     (case pc t of
        AtNewWatcher \<Rightarrow> \<not> active (tim t) \<and> chanC (tim t) = 0
      | AtAdd \<Rightarrow> \<not> active (tim t) \<and> chanC (tim t) = 0
      | AtSelect \<Rightarrow> pending (tim t) = 1
      | AtStop \<Rightarrow> pending (tim t) = 1
      | AtDrain \<Rightarrow> \<not> active (tim t) \<and> chanC (tim t) = 1
      | AtReset \<Rightarrow> \<not> active (tim t) \<and> chanC (tim t) = 0
      | AtStat \<Rightarrow> \<not> active (tim t) \<and> chanC (tim t) = 0
      | AtSend \<Rightarrow> \<not> active (tim t) \<and> chanC (tim t) = 0
      | Returned \<Rightarrow> \<not> active (tim t) \<and> chanC (tim t) \<le> 1)"

text \<open>
  Where a tracker discovered at time \<open>t0\<close> stands at time \<open>t\<close>, for the threshold
  \<open>d\<close>: once armed, its timer is due no earlier than \<open>t0 + d\<close>; a value in the
  channel means the due time has passed; in the case \<^verbatim>\<open><-timer.C\<close> it has passed.
\<close>

definition timely :: "int \<Rightarrow> int \<Rightarrow> int \<Rightarrow> tracker \<Rightarrow> bool" where
  "timely t0 d t tr =
     (t0 \<le> t \<and>
      (case pc tr of
         AtNewWatcher \<Rightarrow> True
       | AtAdd \<Rightarrow> True
       | AtSelect \<Rightarrow> t0 + d \<le> due (tim tr) \<and> (chanC (tim tr) = 0 \<or> due (tim tr) \<le> t)
       | AtStop \<Rightarrow> t0 + d \<le> due (tim tr) \<and> (chanC (tim tr) = 0 \<or> due (tim tr) \<le> t)
       | AtDrain \<Rightarrow> True
       | AtReset \<Rightarrow> True
       | AtStat \<Rightarrow> t0 + d \<le> due (tim tr) \<and> due (tim tr) \<le> t
       | AtSend \<Rightarrow> t0 + d \<le> due (tim tr) \<and> due (tim tr) \<le> t
       | Returned \<Rightarrow> True))"


definition erase :: "system \<Rightarrow> system" where
  "erase s = s\<lparr>dirErrors := [], trackers := map (\<lambda>t. t\<lparr>fwErrors := []\<rparr>) (trackers s)\<rparr>"

text \<open>The tracker that an action belongs to or acts on, if any.\<close>

fun tracker_of :: "action \<Rightarrow> nat option" where
  "tracker_of (TNewWatcher i r) = Some i"
| "tracker_of (TAdd i r) = Some i"
| "tracker_of (TSelDone i) = Some i"
| "tracker_of (TSelEvent i) = Some i"
| "tracker_of (TSelTimer i) = Some i"
| "tracker_of (TStop i) = Some i"
| "tracker_of (TDrain i) = Some i"
| "tracker_of (TReset i) = Some i"
| "tracker_of (TStat i) = Some i"
| "tracker_of (TSendClosed i) = Some i"
| "tracker_of (Consume i) = Some i"
| "tracker_of (Fire i) = Some i"
| "tracker_of (FwError i e) = Some i"
| "tracker_of a = None"

text \<open>
  The actions that keep tracker \<open>i\<close> of the path \<open>p\<close> from its event: its
  \<^verbatim>\<open>select\<close> takes the case \<^verbatim>\<open><-w.done\<close>, one of its calls to fsnotify fails, or the
  path is removed. \<open>unhindered i p a\<close> holds when \<open>a\<close> is none of these.
\<close>

fun unhindered :: "nat \<Rightarrow> string \<Rightarrow> action \<Rightarrow> bool" where
  "unhindered i p (TSelDone j) = (j \<noteq> i)"
| "unhindered i p (TNewWatcher j r) = (j \<noteq> i \<or> r = None)"
| "unhindered i p (TAdd j r) = (j \<noteq> i \<or> r = None)"
| "unhindered i p (FsRemove q) = (q \<noteq> p)"
| "unhindered i p a = True"

text \<open>
  The schedule of a tracker that is left alone: it subscribes, arms its timer, the
  threshold \<open>d\<close> passes, the timer fires, the file is found and the consumer
  receives the event.
\<close>

definition quiet_schedule :: "nat \<Rightarrow> int \<Rightarrow> action list" where
  "quiet_schedule i d =
     [TNewWatcher i None, TAdd i None, Tick (nat d), Fire i, TSelTimer i, TStat i, Consume i]"

text \<open>
  The statements of the case \<^verbatim>\<open><-fw.Events\<close> after the notification has been received:
  \<^verbatim>\<open>Stop\<close>, the drain when \<^verbatim>\<open>Stop\<close> returned false, \<^verbatim>\<open>Reset\<close>.
\<close>

definition rearm :: "nat \<Rightarrow> system \<Rightarrow> action list" where
  "rearm i s =
     TStop i # (if active (tim (trackers s ! i)) then [] else [TDrain i]) @ [TReset i]"

section \<open>A small system for the examples\<close>

text \<open>
  A stand-in for \<^verbatim>\<open>filepath.Join\<close> in the examples: on a clean directory and a
  base name it gives what \<^verbatim>\<open>filepath.Join\<close> gives.
\<close>

definition Join_example :: "string \<Rightarrow> string \<Rightarrow> string" where
  "Join_example d n = d @ ''/'' @ n"

definition watcher_example :: StableFileWatcher where
  "watcher_example =
     \<lparr>watchDir = ''/w'', dirWatcher_closed = False, done_closed = False,
      StableThreshold = 5, Events_closed = False\<rparr>"

text \<open>The directory \<^verbatim>\<open>/w\<close> holds the file \<^verbatim>\<open>a\<close>; the threshold is 5.\<close>

definition system_example :: system where
  "system_example =
     boot Join_example watcher_example [\<lparr>Name = ''a'', IsDir = False\<rparr>] 0 {''/w/a''}"

text \<open>
  The same system once \<^verbatim>\<open>start\<close> has started the tracker of \<^verbatim>\<open>/w/a\<close>, and once that
  tracker has its subscription and its timer.
\<close>

definition tracking_example :: system where
  "tracking_example =
     system_example\<lparr>dir := DSelect, trackers := [waitUntilFileIsStable ''/w/a'']\<rparr>"

definition armed_example :: system where
  "armed_example =
     system_example
       \<lparr>dir := DSelect,
        trackers := [\<lparr>path = ''/w/a'', pc = AtSelect, fwOpen = True,
                      tim = \<lparr>active = True, due = 5, chanC = 0\<rparr>, fwErrors = []\<rparr>]\<rparr>"

section \<open>Basic facts about steps\<close>

lemmas timer_defs = NewTimer_def whenT_def sendTime_def Stop_def Reset_def
lemmas step_defs = step_def upd_def at_def ret_def os_Stat_def Close_def waitUntilFileIsStable_def
lemmas example_defs =
  system_example_def tracking_example_def armed_example_def watcher_example_def
  Join_example_def boot_def

lemma step_not_panicked: "step a s = Some s' \<Longrightarrow> \<not> panicked s"
  by (simp add: step_def split: if_splits)

lemma step_length: "step a s = Some s' \<Longrightarrow> length (trackers s) \<le> length (trackers s')"
  by (cases a) (auto simp: step_defs Let_def split: if_splits option.splits dpc.splits)

lemma step_StableThreshold: "step a s = Some s' \<Longrightarrow> StableThreshold s' = StableThreshold s"
  by (cases a) (auto simp: step_defs Let_def split: if_splits option.splits dpc.splits)

lemma step_now: "step a s = Some s' \<Longrightarrow> now s \<le> now s'"
  by (cases a) (auto simp: step_defs Let_def split: if_splits option.splits dpc.splits)

lemma step_path:
  "step a s = Some s' \<Longrightarrow> i < length (trackers s) \<Longrightarrow> path (trackers s' ! i) = path (trackers s ! i)"
  by (cases a; clarsimp simp: step_defs Let_def nth_append nth_list_update
        split: if_splits option.splits dpc.splits)

lemma run_append: "run (as @ bs) s = (case run as s of None \<Rightarrow> None | Some s' \<Rightarrow> run bs s')"
  by (induction as arbitrary: s) (auto split: option.splits)

lemma run_path:
  "run as s = Some s' \<Longrightarrow> i < length (trackers s) \<Longrightarrow> path (trackers s' ! i) = path (trackers s ! i)"
proof (induction as arbitrary: s)
  case Nil
  then show ?case by simp
next
  case (Cons a as)
  then obtain s1 where s1: "step a s = Some s1" "run as s1 = Some s'"
    by (auto split: option.splits)
  have "i < length (trackers s1)"
    using step_length [OF s1(1)] Cons.prems(2) by simp
  with Cons.IH [OF s1(2)] step_path [OF s1(1) Cons.prems(2)] show ?case by simp
qed

lemma run_StableThreshold: "run as s = Some s' \<Longrightarrow> StableThreshold s' = StableThreshold s"
proof (induction as arbitrary: s)
  case Nil
  then show ?case by simp
next
  case (Cons a as)
  then obtain s1 where s1: "step a s = Some s1" "run as s1 = Some s'"
    by (auto split: option.splits)
  from step_StableThreshold [OF s1(1)] Cons.IH [OF s1(2)] show ?case by simp
qed

subsection \<open>The timer discipline is an invariant\<close>

lemma tracker_ok_fresh: "tracker_ok (waitUntilFileIsStable p)"
  by (simp add: tracker_ok_def waitUntilFileIsStable_def)

lemma step_tracker_ok_nth:
  "step a s = Some s' \<Longrightarrow> i < length (trackers s) \<Longrightarrow> tracker_ok (trackers s ! i) \<Longrightarrow>
   tracker_ok (trackers s' ! i)"
  apply (cases a; clarsimp simp: step_def at_def upd_def Close_def Let_def nth_append nth_list_update
           split: if_splits option.splits dpc.splits)
  apply (simp_all add: tracker_ok_def pending_def timer_defs ret_def split: if_splits tpc.splits)
  done

lemma pending_le_1: "tracker_ok t \<Longrightarrow> pending (tim t) \<le> 1"
  by (cases "pc t") (auto simp: tracker_ok_def pending_def)

subsection \<open>A tracker that has returned stays so, and sends nothing\<close>

lemma step_Returned: "step a s = Some s' \<Longrightarrow> at i Returned s \<Longrightarrow> at i Returned s'"
  by (cases a; clarsimp simp: step_defs Let_def nth_append nth_list_update
        split: if_splits option.splits dpc.splits)

lemma Consume_at: "step (Consume i) s = Some s' \<Longrightarrow> at i AtSend s \<and> at i Returned s'"
  by (clarsimp simp: step_defs split: if_splits)

lemma run_Returned:
  "run as s = Some s' \<Longrightarrow> at i Returned s \<Longrightarrow> at i Returned s' \<and> Consume i \<notin> set as"
proof (induction as arbitrary: s)
  case Nil
  then show ?case by simp
next
  case (Cons a as)
  then obtain s1 where s1: "step a s = Some s1" "run as s1 = Some s'"
    by (auto split: option.splits)
  have r1: "at i Returned s1"
    using step_Returned [OF s1(1) Cons.prems(2)] .
  have "a \<noteq> Consume i"
    using Consume_at [of i s s1] s1(1) Cons.prems(2) by (auto simp: at_def)
  with Cons.IH [OF s1(2) r1] show ?case by simp
qed

lemma run_Consume_once: "run as s = Some s' \<Longrightarrow> count_list as (Consume i) \<le> 1"
proof (induction as arbitrary: s)
  case Nil
  then show ?case by simp
next
  case (Cons a as)
  then obtain s1 where s1: "step a s = Some s1" "run as s1 = Some s'"
    by (auto split: option.splits)
  show ?case
  proof (cases "a = Consume i")
    case True
    then have "at i Returned s1"
      using Consume_at s1(1) by blast
    then have "Consume i \<notin> set as"
      using run_Returned [OF s1(2)] by blast
    then have "count_list as (Consume i) = 0"
      by (simp add: count_list_0_iff)
    with True show ?thesis by simp
  next
    case False
    with Cons.IH [OF s1(2)] show ?thesis by simp
  qed
qed

section \<open>The existence check when the timer has fired\<close>

lemma step_to_AtSend:
  "step a s = Some s' \<Longrightarrow> \<not> at i AtSend s \<Longrightarrow> at i AtSend s' \<Longrightarrow>
   a = TStat i \<and> i < length (trackers s) \<and> path (trackers s ! i) \<in> fs s"
  by (cases a; clarsimp simp: step_defs Let_def nth_append nth_list_update
        split: if_splits option.splits dpc.splits)

lemma Consume_after_Stat:
  "run (as @ [Consume i]) s = Some s' \<Longrightarrow> \<not> at i AtSend s \<Longrightarrow>
   \<exists>as1 as2 u. as = as1 @ TStat i # as2 \<and> run as1 s = Some u \<and> path (trackers u ! i) \<in> fs u"
proof (induction as arbitrary: s)
  case Nil
  then show ?case
    using Consume_at [of i s] by (auto split: option.splits)
next
  case (Cons a as)
  then obtain s1 where s1: "step a s = Some s1" "run (as @ [Consume i]) s1 = Some s'"
    by (auto split: option.splits)
  show ?case
  proof (cases "at i AtSend s1")
    case True
    from step_to_AtSend [OF s1(1) Cons.prems(2) True]
    have "a = TStat i" "path (trackers s ! i) \<in> fs s" by simp_all
    then have "a # as = [] @ TStat i # as \<and> run [] s = Some s \<and> path (trackers s ! i) \<in> fs s"
      by simp
    then show ?thesis by blast
  next
    case False
    from Cons.IH [OF s1(2) False]
    obtain as1 as2 u where "as = as1 @ TStat i # as2" "run as1 s1 = Some u"
      "path (trackers u ! i) \<in> fs u" by blast
    then have "a # as = (a # as1) @ TStat i # as2 \<and> run (a # as1) s = Some u
        \<and> path (trackers u ! i) \<in> fs u"
      using s1(1) by simp
    then show ?thesis by blast
  qed
qed

lemma step_absent:
  "step a s = Some s' \<Longrightarrow> i < length (trackers s) \<Longrightarrow> pc (trackers s ! i) \<noteq> AtSend \<Longrightarrow>
   path (trackers s ! i) \<notin> fs s \<Longrightarrow> a \<noteq> FsCreate (path (trackers s ! i)) \<Longrightarrow>
   pc (trackers s' ! i) \<noteq> AtSend \<and> path (trackers s' ! i) \<notin> fs s' \<and> a \<noteq> Consume i"
  by (cases a; clarsimp simp: step_defs Let_def nth_append nth_list_update
        split: if_splits option.splits dpc.splits)

lemma run_absent:
  "run as s = Some s' \<Longrightarrow> i < length (trackers s) \<Longrightarrow> pc (trackers s ! i) \<noteq> AtSend \<Longrightarrow>
   path (trackers s ! i) \<notin> fs s \<Longrightarrow> FsCreate (path (trackers s ! i)) \<notin> set as \<Longrightarrow>
   Consume i \<notin> set as"
proof (induction as arbitrary: s)
  case Nil
  then show ?case by simp
next
  case (Cons a as)
  then obtain s1 where s1: "step a s = Some s1" "run as s1 = Some s'"
    by (auto split: option.splits)
  have a: "a \<noteq> FsCreate (path (trackers s ! i))"
    using Cons.prems(5) by auto
  have i1: "i < length (trackers s1)"
    using step_length [OF s1(1)] Cons.prems(2) by simp
  have p: "path (trackers s1 ! i) = path (trackers s ! i)"
    using step_path [OF s1(1) Cons.prems(2)] .
  from step_absent [OF s1(1) Cons.prems(2,3,4) a]
  have n: "pc (trackers s1 ! i) \<noteq> AtSend" "path (trackers s1 ! i) \<notin> fs s1" "a \<noteq> Consume i"
    by simp_all
  have "Consume i \<notin> set as"
    using Cons.IH [OF s1(2) i1 n(1,2)] Cons.prems(5) p by simp
  with n(3) show ?case by simp
qed

text \<open>
  C1. Tracker \<open>i\<close> watches the path \<open>p\<close>. When its \<^verbatim>\<open>select\<close> takes the case of the
  timer, the next statement is the existence check, and nothing has been sent. The
  check can always run: if \<open>p\<close> exists the tracker goes on to send, and nothing else
  changes; if it does not, the tracker returns and no event of this tracker is received,
  now or later. The send hands the consumer exactly the event \<open>\<lparr>Path = p\<rparr>\<close>, after
  which the tracker has returned and sends nothing more. An event of the tracker is
  received only after an existence check that found \<open>p\<close>. Hence if \<open>p\<close> is gone before
  the check and is not created again, no event of this tracker is ever received.
\<close>

theorem timer_fire_checks_existence:
  assumes "i < length (trackers s)" and "\<not> panicked s"
  defines "p \<equiv> path (trackers s ! i)"
  shows "(\<forall>s1. step (TSelTimer i) s = Some s1 \<longrightarrow> at i AtStat s1 \<and> received s1 = received s)
       \<and> (at i AtStat s \<longrightarrow>
            (\<exists>s1. step (TStat i) s = Some s1 \<and> received s1 = received s
               \<and> (if p \<in> fs s then s1 = upd i (\<lambda>t. t\<lparr>pc := AtSend\<rparr>) s
                   else at i Returned s1
                     \<and> (\<forall>as s2. run as s1 = Some s2 \<longrightarrow> Consume i \<notin> set as))))
       \<and> (at i AtSend s \<and> \<not> Events_closed s \<longrightarrow>
            (\<exists>s1. step (Consume i) s = Some s1 \<and> received s1 = received s @ [\<lparr>Path = p\<rparr>]
               \<and> at i Returned s1
               \<and> (\<forall>as s2. run as s1 = Some s2 \<longrightarrow> Consume i \<notin> set as)))
       \<and> (\<forall>as s'. run (as @ [Consume i]) s = Some s' \<and> \<not> at i AtSend s \<longrightarrow>
            (\<exists>as1 as2 u. as = as1 @ TStat i # as2 \<and> run as1 s = Some u \<and> p \<in> fs u))
       \<and> (\<forall>as s'. run as s = Some s' \<and> \<not> at i AtSend s \<and> p \<notin> fs s \<and> FsCreate p \<notin> set as
            \<longrightarrow> Consume i \<notin> set as)"
proof -
  have a: "at i AtStat s1 \<and> received s1 = received s" if "step (TSelTimer i) s = Some s1" for s1
    using that by (auto simp: step_defs split: if_splits)
  have b: "\<exists>s1. step (TStat i) s = Some s1 \<and> received s1 = received s
               \<and> (if p \<in> fs s then s1 = upd i (\<lambda>t. t\<lparr>pc := AtSend\<rparr>) s
                   else at i Returned s1
                     \<and> (\<forall>as s2. run as s1 = Some s2 \<longrightarrow> Consume i \<notin> set as))"
    if st: "at i AtStat s"
  proof (cases "p \<in> fs s")
    case True
    then show ?thesis
      using st assms(2) by (simp add: step_def os_Stat_def p_def upd_def)
  next
    case False
    obtain s1 where s1: "step (TStat i) s = Some s1"
      using st assms(2) by (simp add: step_def)
    have r: "at i Returned s1" and e: "received s1 = received s"
      using s1 st False by (auto simp: step_defs p_def Stop_def split: if_splits)
    have "Consume i \<notin> set as" if "run as s1 = Some s2" for as s2
      using run_Returned [OF that r] by simp
    with s1 r e False show ?thesis by auto
  qed
  have c: "\<exists>s1. step (Consume i) s = Some s1 \<and> received s1 = received s @ [\<lparr>Path = p\<rparr>]
               \<and> at i Returned s1
               \<and> (\<forall>as s2. run as s1 = Some s2 \<longrightarrow> Consume i \<notin> set as)"
    if st: "at i AtSend s" "\<not> Events_closed s"
  proof -
    obtain s1 where s1: "step (Consume i) s = Some s1"
      using st assms(2) by (simp add: step_def)
    have r: "at i Returned s1"
      using Consume_at [OF s1] by simp
    have e: "received s1 = received s @ [\<lparr>Path = p\<rparr>]"
      using s1 by (auto simp: step_defs p_def split: if_splits)
    have "Consume i \<notin> set as" if "run as s1 = Some s2" for as s2
      using run_Returned [OF that r] by simp
    with s1 r e show ?thesis by auto
  qed
  have d: "\<exists>as1 as2 u. as = as1 @ TStat i # as2 \<and> run as1 s = Some u \<and> p \<in> fs u"
    if r: "run (as @ [Consume i]) s = Some s'" and n: "\<not> at i AtSend s" for as s'
  proof -
    from Consume_after_Stat [OF r n]
    obtain as1 as2 u where u: "as = as1 @ TStat i # as2" "run as1 s = Some u"
      "path (trackers u ! i) \<in> fs u" by blast
    have "path (trackers u ! i) = p"
      using run_path [OF u(2) assms(1)] by (simp add: p_def)
    with u show ?thesis by auto
  qed
  have e: "Consume i \<notin> set as"
    if "run as s = Some s'" "\<not> at i AtSend s" "p \<notin> fs s" "FsCreate p \<notin> set as" for as s'
    using run_absent [of as s s' i] that assms(1) by (simp add: p_def at_def)
  show ?thesis
    using a b c d e by blast
qed

theorem timer_fire_checks_existence_witness:
  "\<exists>u s1. run [Tick 5, Fire 0, FsRemove ''/w/a'', TSelTimer 0] armed_example = Some u
      \<and> step (TStat 0) u = Some s1 \<and> received s1 = [] \<and> at 0 Returned s1"
proof -
  obtain u where u: "run [Tick 5, Fire 0, FsRemove ''/w/a'', TSelTimer 0] armed_example = Some u"
    and f: "at 0 AtStat u" "\<not> panicked u" "0 < length (trackers u)"
      "path (trackers u ! 0) \<notin> fs u" "received u = []"
    by (simp add: step_defs example_defs timer_defs)
  from timer_fire_checks_existence [OF f(3,2)] f(1,4,5)
  obtain s1 where "step (TStat 0) u = Some s1" "received s1 = []" "at 0 Returned s1"
    by auto
  with u show ?thesis by blast
qed

section \<open>One event for each discovery, after the threshold\<close>

lemma step_timely:
  "step a s = Some s' \<Longrightarrow> i < length (trackers s) \<Longrightarrow> tracker_ok (trackers s ! i) \<Longrightarrow>
   timely t0 (StableThreshold s) (now s) (trackers s ! i) \<Longrightarrow>
   timely t0 (StableThreshold s') (now s') (trackers s' ! i)"
  apply (cases a; clarsimp simp: step_def at_def upd_def Close_def Let_def nth_append nth_list_update
           split: if_splits option.splits dpc.splits)
  apply (simp_all add: timely_def tracker_ok_def pending_def timer_defs ret_def
           split: if_splits tpc.splits)
  done

lemma run_timely:
  "run as s = Some u \<Longrightarrow> i < length (trackers s) \<Longrightarrow> tracker_ok (trackers s ! i) \<Longrightarrow>
   timely t0 (StableThreshold s) (now s) (trackers s ! i) \<Longrightarrow>
   tracker_ok (trackers u ! i) \<and> timely t0 (StableThreshold u) (now u) (trackers u ! i)"
proof (induction as arbitrary: s)
  case Nil
  then show ?case by simp
next
  case (Cons a as)
  from Cons.prems(1) obtain s1 where s1: "step a s = Some s1" "run as s1 = Some u"
    by (auto split: option.splits)
  have "i < length (trackers s1)"
    using step_length [OF s1(1)] Cons.prems(2) by simp
  then show ?case
    using Cons.IH [OF s1(2)] step_tracker_ok_nth [OF s1(1) Cons.prems(2,3)]
      step_timely [OF s1(1) Cons.prems(2,3,4)] by simp
qed

lemma step_unhindered:
  "step a s = Some s' \<Longrightarrow> i < length (trackers s) \<Longrightarrow> pc (trackers s ! i) \<noteq> Returned \<Longrightarrow>
   path (trackers s ! i) \<in> fs s \<Longrightarrow> unhindered i (path (trackers s ! i)) a \<Longrightarrow> a \<noteq> Consume i \<Longrightarrow>
   pc (trackers s' ! i) \<noteq> Returned \<and> path (trackers s' ! i) \<in> fs s'"
  by (cases a; clarsimp simp: step_defs Let_def nth_append nth_list_update
        split: if_splits option.splits dpc.splits)

lemma run_unhindered:
  "run as s = Some s' \<Longrightarrow> i < length (trackers s) \<Longrightarrow> pc (trackers s ! i) \<noteq> Returned \<Longrightarrow>
   path (trackers s ! i) \<in> fs s \<Longrightarrow> list_all (unhindered i (path (trackers s ! i))) as \<Longrightarrow>
   Consume i \<notin> set as \<Longrightarrow> pc (trackers s' ! i) \<noteq> Returned"
proof (induction as arbitrary: s)
  case Nil
  then show ?case by simp
next
  case (Cons a as)
  from Cons.prems(1) obtain s1 where s1: "step a s = Some s1" "run as s1 = Some s'"
    by (auto split: option.splits)
  have i1: "i < length (trackers s1)"
    using step_length [OF s1(1)] Cons.prems(2) by simp
  have p: "path (trackers s1 ! i) = path (trackers s ! i)"
    using step_path [OF s1(1) Cons.prems(2)] .
  have "unhindered i (path (trackers s ! i)) a" "a \<noteq> Consume i"
    using Cons.prems(5,6) by auto
  from step_unhindered [OF s1(1) Cons.prems(2,3,4) this]
  have n: "pc (trackers s1 ! i) \<noteq> Returned" "path (trackers s1 ! i) \<in> fs s1"
    by simp_all
  show ?case
    using Cons.IH [OF s1(2) i1 n] Cons.prems(5,6) p by simp
qed

lemma quiet_schedule_runs:
  assumes "i < length (trackers s)" and "trackers s ! i = waitUntilFileIsStable p"
    and "\<not> panicked s" and "p \<in> fs s" and "\<not> Events_closed s"
  shows "\<exists>s'. run (quiet_schedule i (StableThreshold s)) s = Some s' \<and> at i Returned s'
            \<and> received s' = received s @ [\<lparr>Path = p\<rparr>]"
  using assms
  by (simp add: quiet_schedule_def step_defs timer_defs)

text \<open>
  C2. Tracker \<open>i\<close> has just been started on the path \<open>p\<close>, at the time \<open>now s\<close>. Whatever
  happens next, the consumer receives at most one event from it, and none before the
  threshold has passed since the tracker was started. If no cancellation is observed by
  the tracker, its subscription succeeds and \<open>p\<close> is not removed, then by the time the
  tracker has returned exactly one event of it has been received; and it can return: left
  alone, the tracker subscribes, waits for the threshold, finds the file and hands over
  the event \<open>\<lparr>Path = p\<rparr>\<close>.
\<close>

theorem tracker_emits_once_after_threshold:
  assumes "i < length (trackers s)" and "trackers s ! i = waitUntilFileIsStable p"
    and "\<not> panicked s"
  shows "(\<forall>as s'. run as s = Some s' \<longrightarrow> count_list as (Consume i) \<le> 1)
       \<and> (\<forall>as s'. run (as @ [Consume i]) s = Some s' \<longrightarrow> now s + StableThreshold s \<le> now s')
       \<and> (\<forall>as s'. run as s = Some s' \<and> list_all (unhindered i p) as \<and> p \<in> fs s \<and> at i Returned s'
             \<longrightarrow> count_list as (Consume i) = 1)
       \<and> (p \<in> fs s \<and> \<not> Events_closed s \<longrightarrow>
            (\<exists>s'. run (quiet_schedule i (StableThreshold s)) s = Some s' \<and> at i Returned s'
               \<and> received s' = received s @ [\<lparr>Path = p\<rparr>]))"
proof -
  have pth: "path (trackers s ! i) = p" and pc0: "pc (trackers s ! i) = AtNewWatcher"
    using assms(2) by (simp_all add: waitUntilFileIsStable_def)
  have ok: "tracker_ok (trackers s ! i)"
    using assms(2) by (simp add: tracker_ok_fresh)
  have tm: "timely (now s) (StableThreshold s) (now s) (trackers s ! i)"
    using pc0 by (simp add: timely_def)
  have once: "count_list as (Consume i) \<le> 1" if "run as s = Some s'" for as s'
    using that by (rule run_Consume_once)
  have late: "now s + StableThreshold s \<le> now s'" if r: "run (as @ [Consume i]) s = Some s'" for as s'
  proof -
    from r obtain u where u: "run as s = Some u" "step (Consume i) u = Some s'"
      by (auto simp: run_append split: option.splits)
    from run_timely [OF u(1) assms(1) ok tm]
    have t: "timely (now s) (StableThreshold u) (now u) (trackers u ! i)" by simp
    have "pc (trackers u ! i) = AtSend"
      using Consume_at [OF u(2)] by (simp add: at_def)
    with t have "now s + StableThreshold u \<le> now u"
      by (simp add: timely_def)
    moreover have "now s' = now u"
      using u(2) by (auto simp: step_defs split: if_splits)
    moreover have "StableThreshold u = StableThreshold s"
      using run_StableThreshold [OF u(1)] .
    ultimately show ?thesis by simp
  qed
  have one: "count_list as (Consume i) = 1"
    if r: "run as s = Some s'" and q: "list_all (unhindered i p) as" and f: "p \<in> fs s"
      and e: "at i Returned s'" for as s'
  proof -
    have "Consume i \<in> set as"
    proof (rule ccontr)
      assume "Consume i \<notin> set as"
      from run_unhindered [OF r assms(1) _ _ _ this] pth pc0 q f
      have "pc (trackers s' ! i) \<noteq> Returned" by simp
      with e show False by (simp add: at_def)
    qed
    then have "0 < count_list as (Consume i)"
      by (simp add: count_list_0_iff zero_less_iff_neq_zero)
    with once [OF r] show ?thesis by simp
  qed
  have can: "\<exists>s'. run (quiet_schedule i (StableThreshold s)) s = Some s' \<and> at i Returned s'
               \<and> received s' = received s @ [\<lparr>Path = p\<rparr>]"
    if "p \<in> fs s" "\<not> Events_closed s"
    using quiet_schedule_runs [OF assms(1,2,3) that] .
  show ?thesis
    using once late one can by blast
qed

theorem tracker_emits_once_after_threshold_witness:
  "\<exists>s'. run (quiet_schedule 0 5) tracking_example = Some s'
      \<and> received s' = [\<lparr>Path = ''/w/a''\<rparr>]
      \<and> count_list (quiet_schedule 0 5) (Consume 0) = 1
      \<and> now tracking_example + 5 \<le> now s'"
proof -
  have h: "0 < length (trackers tracking_example)"
    "trackers tracking_example ! 0 = waitUntilFileIsStable ''/w/a''"
    "\<not> panicked tracking_example"
    and f: "''/w/a'' \<in> fs tracking_example" "\<not> Events_closed tracking_example"
    and d: "StableThreshold tracking_example = 5" "received tracking_example = []"
    by (simp_all add: example_defs)
  note t = tracker_emits_once_after_threshold [OF h]
  from t f d obtain s' where s': "run (quiet_schedule 0 5) tracking_example = Some s'"
    "at 0 Returned s'" "received s' = [\<lparr>Path = ''/w/a''\<rparr>]"
    by auto
  have u: "list_all (unhindered 0 ''/w/a'') (quiet_schedule 0 5)"
    by (simp add: quiet_schedule_def)
  have c: "count_list (quiet_schedule 0 5) (Consume 0) = 1"
    using t s'(1,2) u f(1) by blast
  have q: "quiet_schedule 0 5 = butlast (quiet_schedule 0 5) @ [Consume 0]"
    by (simp add: quiet_schedule_def)
  have "run (butlast (quiet_schedule 0 5) @ [Consume 0]) tracking_example = Some s'"
    using s'(1) q by simp
  with t d(1) have "now tracking_example + 5 \<le> now s'"
    by (metis (no_types, lifting))
  with s' c show ?thesis by blast
qed

section \<open>Events after cancellation\<close>

text \<open>
  What the code does keep: \<^verbatim>\<open>Events\<close> is closed by \<^verbatim>\<open>start\<close> alone, in the case
  \<^verbatim>\<open><-w.done\<close> of its \<^verbatim>\<open>select\<close>, after which \<^verbatim>\<open>start\<close> has returned; so it is closed only
  once \<^verbatim>\<open>done\<close> is closed, and at most once.
\<close>

lemma step_Events_closed:
  "step a s = Some s' \<Longrightarrow> (Events_closed s \<longleftrightarrow> dir s = DReturned) \<Longrightarrow>
   (Events_closed s' \<longleftrightarrow> dir s' = DReturned)
   \<and> (Events_closed s' \<and> \<not> Events_closed s \<longrightarrow> a = DirSelDone \<and> done_closed s)
   \<and> (Events_closed s \<longrightarrow> a \<noteq> DirSelDone \<and> length (trackers s') = length (trackers s))"
  by (cases a; clarsimp simp: step_defs Let_def split: if_splits option.splits dpc.splits)

text \<open>
  C3. Once the cancellation signal has fired, no tracker should emit a further event, and
  \<^verbatim>\<open>Events\<close> should be closed without any tracker writing to the closed channel. The code
  does not ensure it. In the system of the example the tracker of \<^verbatim>\<open>/w/a\<close> has found
  its file and is sending when \<^verbatim>\<open>Close\<close> is called. If the consumer then receives, the
  event is emitted after the signal has fired; if \<^verbatim>\<open>start\<close> closes \<^verbatim>\<open>Events\<close> first, the
  tracker's send is a send on a closed channel and the process panics. And a tracker whose
  timer has fired may still take the case of the timer after the signal has fired.
\<close>

theorem event_after_cancellation:
  "\<exists>s1 s2 s3 s4.
      run [TNewWatcher 0 None, TAdd 0 None, Tick 5, Fire 0, TSelTimer 0, TStat 0, CallClose]
        tracking_example = Some s1
    \<and> done_closed s1 \<and> received s1 = []
    \<and> run [Consume 0] s1 = Some s2 \<and> received s2 = [\<lparr>Path = ''/w/a''\<rparr>]
    \<and> run [DirSelDone, TSendClosed 0] s1 = Some s3 \<and> Events_closed s3 \<and> panicked s3
    \<and> run [TNewWatcher 0 None, TAdd 0 None, Tick 5, Fire 0, CallClose, TSelTimer 0, TStat 0, Consume 0]
        tracking_example = Some s4
    \<and> done_closed s4 \<and> received s4 = [\<lparr>Path = ''/w/a''\<rparr>]"
  by (simp add: step_defs example_defs timer_defs)

section \<open>Re-arming the timer\<close>

lemma step_new_fresh:
  "step a s = Some s' \<Longrightarrow> length (trackers s) \<le> j \<Longrightarrow> j < length (trackers s') \<Longrightarrow>
   \<exists>p. trackers s' ! j = waitUntilFileIsStable p"
  by (cases a; clarsimp simp: step_def at_def upd_def Close_def Let_def nth_append
        split: if_splits option.splits dpc.splits; blast)

lemma step_all_timely:
  assumes st: "step a s = Some s'"
    and inv: "\<forall>j < length (trackers s). tracker_ok (trackers s ! j)
                \<and> timely t0 (StableThreshold s) (now s) (trackers s ! j)"
    and t0: "t0 \<le> now s"
  shows "\<forall>j < length (trackers s'). tracker_ok (trackers s' ! j)
                \<and> timely t0 (StableThreshold s') (now s') (trackers s' ! j)"
proof (intro allI impI)
  fix j assume j: "j < length (trackers s')"
  show "tracker_ok (trackers s' ! j) \<and> timely t0 (StableThreshold s') (now s') (trackers s' ! j)"
  proof (cases "j < length (trackers s)")
    case True
    with inv have "tracker_ok (trackers s ! j)"
      "timely t0 (StableThreshold s) (now s) (trackers s ! j)" by simp_all
    then show ?thesis
      using step_tracker_ok_nth [OF st True] step_timely [OF st True] by simp
  next
    case False
    then obtain p where "trackers s' ! j = waitUntilFileIsStable p"
      using step_new_fresh [OF st _ j] by auto
    moreover have "t0 \<le> now s'"
      using step_now [OF st] t0 by simp
    ultimately show ?thesis
      by (simp add: tracker_ok_def timely_def waitUntilFileIsStable_def)
  qed
qed

lemma run_all_timely:
  "run as s = Some s' \<Longrightarrow>
   \<forall>j < length (trackers s). tracker_ok (trackers s ! j)
       \<and> timely t0 (StableThreshold s) (now s) (trackers s ! j) \<Longrightarrow>
   t0 \<le> now s \<Longrightarrow>
   \<forall>j < length (trackers s'). tracker_ok (trackers s' ! j)
       \<and> timely t0 (StableThreshold s') (now s') (trackers s' ! j)"
proof (induction as arbitrary: s)
  case Nil
  then show ?case by simp
next
  case (Cons a as)
  from Cons.prems(1) obtain s1 where s1: "step a s = Some s1" "run as s1 = Some s'"
    by (auto split: option.splits)
  have "t0 \<le> now s1"
    using step_now [OF s1(1)] Cons.prems(3) by simp
  from Cons.IH [OF s1(2) step_all_timely [OF s1(1) Cons.prems(2,3)] this]
  show ?case .
qed

lemma step_rearming:
  "step a s = Some s' \<Longrightarrow> i < length (trackers s) \<Longrightarrow>
   pc (trackers s ! i) \<in> {AtStop, AtDrain, AtReset} \<Longrightarrow> a \<noteq> TReset i \<Longrightarrow>
   pc (trackers s' ! i) \<in> {AtStop, AtDrain, AtReset}"
  by (cases a; clarsimp simp: step_defs Let_def nth_append nth_list_update
        split: if_splits option.splits dpc.splits)

lemma run_rearming:
  "run bs s = Some s' \<Longrightarrow> i < length (trackers s) \<Longrightarrow>
   pc (trackers s ! i) \<in> {AtStop, AtDrain, AtReset} \<Longrightarrow> TReset i \<notin> set bs \<Longrightarrow>
   pc (trackers s' ! i) \<in> {AtStop, AtDrain, AtReset}"
proof (induction bs arbitrary: s)
  case Nil
  then show ?case by simp
next
  case (Cons a bs)
  from Cons.prems(1) obtain s1 where s1: "step a s = Some s1" "run bs s1 = Some s'"
    by (auto split: option.splits)
  have "i < length (trackers s1)"
    using step_length [OF s1(1)] Cons.prems(2) by simp
  moreover have "pc (trackers s1 ! i) \<in> {AtStop, AtDrain, AtReset}"
    using step_rearming [OF s1(1) Cons.prems(2,3)] Cons.prems(4) by auto
  ultimately show ?case
    using Cons.IH [OF s1(2)] Cons.prems(4) by simp
qed

text \<open>
  C4. In every state the system reaches, the timer of each tracker owes at most one
  expiration: the one the runtime has yet to fire or the one waiting in the channel,
  never both. A notification received by the \<^verbatim>\<open>select\<close> takes the tracker to \<^verbatim>\<open>Stop\<close>
  with the timer untouched. From there stop, drain and reset run without blocking (the
  drain is reached only with a fired value in the channel) and leave the timer armed for
  the full threshold from now with an empty channel. The tracker cannot take the case of
  the timer again before that reset, and when it does, the due time set by the latest
  arming has passed.
\<close>

theorem timer_rearmed_by_stop_drain_reset:
  assumes "run as (boot Join w existingFiles t files) = Some s"
    and "i < length (trackers s)" and "\<not> panicked s"
  shows "pending (tim (trackers s ! i)) \<le> 1
       \<and> (\<forall>s1. step (TSelEvent i) s = Some s1 \<longrightarrow>
             at i AtStop s1 \<and> tim (trackers s1 ! i) = tim (trackers s ! i))
       \<and> (at i AtStop s \<longrightarrow>
            (\<exists>s1. run (rearm i s) s = Some s1 \<and> at i AtSelect s1
               \<and> tim (trackers s1 ! i)
                   = \<lparr>active = True, due = whenT (now s) (StableThreshold s), chanC = 0\<rparr>))
       \<and> (at i AtDrain s \<longrightarrow> (\<exists>s1. step (TDrain i) s = Some s1 \<and> at i AtReset s1))
       \<and> (at i AtReset s \<longrightarrow>
            (\<exists>s1. step (TReset i) s = Some s1 \<and> at i AtSelect s1
               \<and> tim (trackers s1 ! i)
                   = \<lparr>active = True, due = whenT (now s) (StableThreshold s), chanC = 0\<rparr>))
       \<and> (\<forall>bs s1 s2. step (TSelEvent i) s = Some s1 \<and> run (bs @ [TSelTimer i]) s1 = Some s2
             \<longrightarrow> TReset i \<in> set bs)
       \<and> (\<forall>s1. step (TSelTimer i) s = Some s1 \<longrightarrow> due (tim (trackers s ! i)) \<le> now s)"
proof -
  let ?b = "boot Join w existingFiles t files"
  have "\<forall>j < length (trackers ?b). tracker_ok (trackers ?b ! j)
          \<and> timely t (StableThreshold ?b) (now ?b) (trackers ?b ! j)"
    and "t \<le> now ?b"
    by (simp_all add: boot_def)
  from run_all_timely [OF assms(1) this] assms(2)
  have ok: "tracker_ok (trackers s ! i)"
    and tm: "timely t (StableThreshold s) (now s) (trackers s ! i)"
    by simp_all
  have 1: "pending (tim (trackers s ! i)) \<le> 1"
    using ok by (rule pending_le_1)
  have 2: "at i AtStop s1 \<and> tim (trackers s1 ! i) = tim (trackers s ! i)"
    if "step (TSelEvent i) s = Some s1" for s1
    using that by (auto simp: step_defs split: if_splits)
  have 3: "\<exists>s1. run (rearm i s) s = Some s1 \<and> at i AtSelect s1
               \<and> tim (trackers s1 ! i)
                   = \<lparr>active = True, due = whenT (now s) (StableThreshold s), chanC = 0\<rparr>"
    if "at i AtStop s"
    using that ok assms(3)
    by (auto simp: rearm_def step_defs timer_defs tracker_ok_def pending_def split: if_splits)
  have 4: "\<exists>s1. step (TDrain i) s = Some s1 \<and> at i AtReset s1" if "at i AtDrain s"
    using that ok assms(3) by (auto simp: step_defs tracker_ok_def)
  have 5: "\<exists>s1. step (TReset i) s = Some s1 \<and> at i AtSelect s1
               \<and> tim (trackers s1 ! i)
                   = \<lparr>active = True, due = whenT (now s) (StableThreshold s), chanC = 0\<rparr>"
    if "at i AtReset s"
    using that ok assms(3) by (auto simp: step_defs timer_defs tracker_ok_def)
  have 6: "TReset i \<in> set bs"
    if st: "step (TSelEvent i) s = Some s1" and r: "run (bs @ [TSelTimer i]) s1 = Some s2"
    for bs s1 s2
  proof (rule ccontr)
    assume n: "TReset i \<notin> set bs"
    from r obtain u where u: "run bs s1 = Some u" "step (TSelTimer i) u = Some s2"
      by (auto simp: run_append split: option.splits)
    have "at i AtStop s1"
      using 2 [OF st] by simp
    then have "i < length (trackers s1)" "pc (trackers s1 ! i) \<in> {AtStop, AtDrain, AtReset}"
      by (simp_all add: at_def)
    from run_rearming [OF u(1) this n]
    have "pc (trackers u ! i) \<noteq> AtSelect" by auto
    with u(2) show False
      by (auto simp: step_def at_def split: if_splits)
  qed
  have 7: "due (tim (trackers s ! i)) \<le> now s" if "step (TSelTimer i) s = Some s1" for s1
    using that tm by (auto simp: step_def at_def timely_def split: if_splits)
  show ?thesis
    using 1 2 3 4 5 6 7 by blast
qed

theorem timer_rearmed_by_stop_drain_reset_witness:
  "\<exists>s s1. run [DirSpawnExisting, TNewWatcher 0 None, TAdd 0 None, Tick 5, TSelEvent 0, Fire 0]
             system_example = Some s
      \<and> run [TStop 0, TDrain 0, TReset 0] s = Some s1
      \<and> tim (trackers s1 ! 0) = \<lparr>active = True, due = 10, chanC = 0\<rparr>
      \<and> pending (tim (trackers s ! 0)) \<le> 1"
proof -
  let ?as = "[DirSpawnExisting, TNewWatcher 0 None, TAdd 0 None, Tick 5, TSelEvent 0, Fire 0]"
  obtain s where s: "run ?as system_example = Some s"
    and f: "0 < length (trackers s)" "\<not> panicked s" "at 0 AtStop s"
      "\<not> active (tim (trackers s ! 0))" "now s = 5" "StableThreshold s = 5"
    by (simp add: step_defs example_defs timer_defs)
  have b: "run ?as (boot Join_example watcher_example [\<lparr>Name = ''a'', IsDir = False\<rparr>] 0 {''/w/a''}) = Some s"
    using s by (simp add: system_example_def)
  note t = timer_rearmed_by_stop_drain_reset [OF b f(1,2)]
  have r: "rearm 0 s = [TStop 0, TDrain 0, TReset 0]"
    using f(4) by (simp add: rearm_def)
  from t f(3) obtain s1 where "run (rearm 0 s) s = Some s1"
    "tim (trackers s1 ! 0) = \<lparr>active = True, due = whenT (now s) (StableThreshold s), chanC = 0\<rparr>"
    by blast
  then have "run [TStop 0, TDrain 0, TReset 0] s = Some s1"
    "tim (trackers s1 ! 0) = \<lparr>active = True, due = 10, chanC = 0\<rparr>"
    using r f(5,6) by (simp_all add: whenT_def)
  moreover have "pending (tim (trackers s ! 0)) \<le> 1"
    using t by blast
  ultimately show ?thesis
    using s by blast
qed

section \<open>The directory loop starts a tracker on a create notification only\<close>

lemma Create_bit0: "(op AND Create = Create) = bit (op :: 32 word) 0"
  by (simp add: Create_def and_one_eq bit_0 mod_2_eq_odd flip: even_iff_mod_2_eq_zero)

lemma other_kinds_not_Create:
  "op AND (Write OR Remove OR Rename OR Chmod) = op \<Longrightarrow> op AND Create \<noteq> (Create :: 32 word)"
proof
  assume m: "op AND (Write OR Remove OR Rename OR Chmod) = op" and c: "op AND Create = Create"
  have "bit op 0" using c by (simp add: Create_bit0)
  moreover have "\<not> bit (op AND (Write OR Remove OR Rename OR Chmod)) 0"
    by (simp add: Write_def Remove_def Rename_def Chmod_def bit_and_iff)
  ultimately show False using m by simp
qed

text \<open>
  C5. With \<^verbatim>\<open>start\<close> in its loop, a step of the system starts a tracker if and only if it
  is the loop receiving a notification whose operation includes create; the tracker is
  then started on the notified path. A notification made only of other kinds (write,
  remove, rename, chmod, or none at all) starts none.
\<close>

theorem start_spawns_on_create_only:
  assumes "step a s = Some s'" and "dir s = DSelect"
  shows "(length (trackers s') \<noteq> length (trackers s)
            \<longleftrightarrow> (\<exists>fileEvent. a = DirSelEvent fileEvent \<and> bit (Op fileEvent) 0))
       \<and> (\<forall>fileEvent. a = DirSelEvent fileEvent \<longrightarrow>
            (if Op fileEvent AND Create = Create
             then trackers s' = trackers s @ [waitUntilFileIsStable (EvName fileEvent)]
             else trackers s' = trackers s)
            \<and> (Op fileEvent AND (Write OR Remove OR Rename OR Chmod) = Op fileEvent
                 \<longrightarrow> trackers s' = trackers s))"
proof -
  have 1: "length (trackers s') \<noteq> length (trackers s)
            \<longleftrightarrow> (\<exists>fileEvent. a = DirSelEvent fileEvent \<and> bit (Op fileEvent) 0)"
    using assms
    by (cases a; clarsimp simp: step_defs Let_def Create_bit0 split: if_splits option.splits dpc.splits)
  have 2: "trackers s' = (if Op fileEvent AND Create = Create
             then trackers s @ [waitUntilFileIsStable (EvName fileEvent)] else trackers s)"
    if "a = DirSelEvent fileEvent" for fileEvent
    using assms that by (auto simp: step_def split: if_splits)
  show ?thesis
    using 1 2 other_kinds_not_Create by auto
qed

theorem start_spawns_on_create_only_witness:
  "\<exists>s'. step (DirSelEvent \<lparr>EvName = ''/w/b'', Op = Create OR Write\<rparr>) tracking_example = Some s'
      \<and> trackers s' = trackers tracking_example @ [waitUntilFileIsStable ''/w/b'']"
proof -
  have st: "step (DirSelEvent \<lparr>EvName = ''/w/b'', Op = Create OR Write\<rparr>) tracking_example
      = Some (tracking_example\<lparr>trackers := trackers tracking_example @ [waitUntilFileIsStable ''/w/b'']\<rparr>)"
    by (simp add: step_def example_defs Create_def Write_def)
  have d: "dir tracking_example = DSelect"
    by (simp add: example_defs)
  show ?thesis
    using start_spawns_on_create_only [OF st d] st by (simp add: Create_def Write_def)
qed


section \<open>The files found at startup are tracked like new ones\<close>

text \<open>
  C6. When construction succeeds, the first loop of \<^verbatim>\<open>start\<close> starts exactly one tracker
  for each entry of the listing that is not a directory, in the order of the listing, on
  the path that joins the watched directory and the entry's name, and none for a
  directory. Each is the goroutine \<^verbatim>\<open>waitUntilFileIsStable\<close> in its initial state, which
  is what a create notification starts; the loop runs once.
\<close>

theorem start_tracks_existing_files:
  assumes "NewStableFileWatcher newWatcher ReadDir Add d stableThreshold = Inr (w, existingFiles)"
  shows "\<exists>items s1.
           ReadDir d = Inr items
         \<and> step DirSpawnExisting (boot Join w existingFiles t files) = Some s1
         \<and> trackers s1 = map (\<lambda>item. waitUntilFileIsStable (Join d (Name item)))
                              (filter (\<lambda>item. \<not> IsDir item) items)
         \<and> dir s1 = DSelect
         \<and> step DirSpawnExisting s1 = None"
  using assms
  by (auto simp: NewStableFileWatcher_def readFiles_def Let_def step_def boot_def comp_def
        split: option.splits sum.splits)

theorem start_tracks_existing_files_witness:
  "\<exists>s1. step DirSpawnExisting
           (boot Join_example watcher_example
              [\<lparr>Name = ''a'', IsDir = False\<rparr>, \<lparr>Name = ''b'', IsDir = False\<rparr>] 0 {}) = Some s1
      \<and> trackers s1 = [waitUntilFileIsStable ''/w/a'', waitUntilFileIsStable ''/w/b'']"
proof -
  have c: "NewStableFileWatcher None
             (\<lambda>d. Inr [\<lparr>Name = ''a'', IsDir = False\<rparr>, \<lparr>Name = ''sub'', IsDir = True\<rparr>,
                        \<lparr>Name = ''b'', IsDir = False\<rparr>])
             (\<lambda>d. None) ''/w'' 5
           = Inr (watcher_example, [\<lparr>Name = ''a'', IsDir = False\<rparr>, \<lparr>Name = ''b'', IsDir = False\<rparr>])"
    by (simp add: NewStableFileWatcher_def readFiles_def watcher_example_def)
  show ?thesis
    using start_tracks_existing_files [OF c, of Join_example 0 "{}"]
    by (auto simp: Join_example_def)
qed


section \<open>Construction fails exactly when one of its three steps fails\<close>

text \<open>
  C7. \<^verbatim>\<open>NewStableFileWatcher(watchDir, stableThreshold)\<close> returns an error if and only if
  creating the notification source, listing the directory or registering the directory
  fails. The error returned wraps the error of the step that failed, and no watcher comes
  with it. Otherwise the watcher returned has the given directory and threshold, its
  channels are open, and \<^verbatim>\<open>start\<close> has been given the entries of the listing that are
  not directories.
\<close>

theorem NewStableFileWatcher_error_iff:
  fixes newWatcher ReadDir Add dir stableThreshold
  defines "r \<equiv> NewStableFileWatcher newWatcher ReadDir Add dir stableThreshold"
  shows "(isl r \<longleftrightarrow> newWatcher \<noteq> None \<or> isl (ReadDir dir) \<or> Add dir \<noteq> None)
       \<and> (isl r \<longrightarrow> (\<exists>cause msg. r = Inl (Wrapf cause msg)
              \<and> (newWatcher = Some cause \<or> ReadDir dir = Inl cause \<or> Add dir = Some cause)))
       \<and> (\<not> isl r \<longrightarrow> (\<exists>w items. r = Inr (w, filter (\<lambda>item. \<not> IsDir item) items)
              \<and> ReadDir dir = Inr items
              \<and> watchDir w = dir \<and> StableThreshold w = stableThreshold
              \<and> \<not> done_closed w \<and> \<not> Events_closed w \<and> \<not> dirWatcher_closed w))"
  unfolding r_def NewStableFileWatcher_def readFiles_def
  by (auto simp: Let_def split: option.splits sum.splits)

theorem NewStableFileWatcher_error_iff_witness:
  "isl (NewStableFileWatcher None (\<lambda>d. Inl (ErrExt ''no such directory'')) (\<lambda>d. None) ''/w'' 5)
   \<and> (\<exists>cause msg. NewStableFileWatcher None (\<lambda>d. Inl (ErrExt ''no such directory'')) (\<lambda>d. None) ''/w'' 5
         = Inl (Wrapf cause msg))"
  using NewStableFileWatcher_error_iff
    [of None "\<lambda>d. Inl (ErrExt ''no such directory'')" "\<lambda>d. None" "''/w''" 5]
  by auto

section \<open>A tracker's failure stays with the tracker\<close>

text \<open>
  C8. When tracker \<open>i\<close> cannot create its notification source, cannot subscribe to its
  path, or finds the file gone when the timer has fired, the step logs one line and the
  tracker returns; nothing else in the system changes. No event is received, \<^verbatim>\<open>start\<close>
  and the other trackers are where they were, nothing panics, every action that does not
  belong to tracker \<open>i\<close> can happen after the failure exactly when it could before, and
  tracker \<open>i\<close> never sends an event afterwards.
\<close>

theorem tracker_failure_is_local:
  assumes "step a s = Some s'"
    and "a = TNewWatcher i (Some err) \<or> a = TAdd i (Some err)
         \<or> (a = TStat i \<and> path (trackers s ! i) \<notin> fs s)"
  shows "(\<exists>t' l. s' = s\<lparr>trackers := (trackers s)[i := t'], logs := logs s @ [l]\<rparr>
                \<and> pc t' = Returned \<and> path t' = path (trackers s ! i))
       \<and> received s' = received s \<and> dir s' = dir s \<and> \<not> panicked s'
       \<and> (\<forall>j. j \<noteq> i \<longrightarrow> trackers s' ! j = trackers s ! j)
       \<and> (\<forall>b. tracker_of b \<noteq> Some i \<longrightarrow> (step b s' = None \<longleftrightarrow> step b s = None))
       \<and> (\<forall>as s''. run as s' = Some s'' \<longrightarrow> Consume i \<notin> set as)"
proof -
  have np: "\<not> panicked s"
    using assms(1) by (rule step_not_panicked)
  have i: "i < length (trackers s)"
    using assms by (auto simp: step_def at_def split: if_splits)
  obtain t' l where s': "s' = s\<lparr>trackers := (trackers s)[i := t'], logs := logs s @ [l]\<rparr>"
    and t': "pc t' = Returned" "path t' = path (trackers s ! i)"
    using assms by (auto simp: step_defs Stop_def split: if_splits)
  have ret: "at i Returned s'"
    using i t' by (simp add: s' at_def)
  have frame: "step b s' = None \<longleftrightarrow> step b s = None" if "tracker_of b \<noteq> Some i" for b
    using that i
    by (cases b; simp add: s' step_def at_def nth_list_update split: dpc.splits)
  have never: "Consume i \<notin> set as" if "run as s' = Some s''" for as s''
    using run_Returned [OF that ret] by simp
  show ?thesis
    using s' t' np frame never by (auto simp: s')
qed

theorem tracker_failure_is_local_witness:
  "\<exists>s'. step (TAdd 0 (Some (ErrExt ''no such file or directory'')))
            (tracking_example\<lparr>trackers := [(waitUntilFileIsStable ''/w/a'')\<lparr>pc := AtAdd, fwOpen := True\<rparr>]\<rparr>)
          = Some s'
      \<and> received s' = [] \<and> dir s' = DSelect \<and> \<not> panicked s'
      \<and> step (Consume 0) s' = None"
proof -
  let ?s = "tracking_example\<lparr>trackers := [(waitUntilFileIsStable ''/w/a'')\<lparr>pc := AtAdd, fwOpen := True\<rparr>]\<rparr>"
  let ?a = "TAdd 0 (Some (ErrExt ''no such file or directory''))"
  obtain s' where st: "step ?a ?s = Some s'"
    by (simp add: step_def at_def example_defs)
  have "?a = TNewWatcher 0 (Some (ErrExt ''no such file or directory'')) \<or> ?a = ?a
        \<or> (?a = TStat 0 \<and> path (trackers ?s ! 0) \<notin> fs ?s)"
    by simp
  from tracker_failure_is_local [OF st this]
  have "received s' = received ?s" "dir s' = dir ?s" "\<not> panicked s'"
    and "\<And>as s''. run as s' = Some s'' \<Longrightarrow> Consume 0 \<notin> set as"
    by blast+
  moreover have "step (Consume 0) s' = None"
  proof (cases "step (Consume 0) s'")
    case None
    then show ?thesis .
  next
    case (Some u)
    then have "run [Consume 0] s' = Some u" by simp
    with calculation(4) have "Consume 0 \<notin> set [Consume 0]" by blast
    then show ?thesis by simp
  qed
  ultimately show ?thesis
    using st by (simp add: example_defs)
qed

section \<open>\<^verbatim>\<open>Close\<close> is not idempotent\<close>

text \<open>
  C9, as the specification states it, fails: a second \<^verbatim>\<open>Close\<close> does not leave the
  system as the first one did, it panics.
\<close>

theorem Close_twice_panics:
  "\<not> panicked (Close system_example) \<and> panicked (Close (Close system_example))
   \<and> Close (Close system_example) \<noteq> Close system_example"
proof -
  have 1: "\<not> panicked (Close system_example)" and 2: "panicked (Close (Close system_example))"
    by (simp_all add: Close_def example_defs)
  then show ?thesis by metis
qed

text \<open>
  C9, amended. The first \<^verbatim>\<open>Close\<close> releases the directory's notification subscription
  and fires the cancellation signal, and changes nothing else. Releasing the
  subscription can be repeated; firing the signal cannot: every \<^verbatim>\<open>Close\<close> after the
  first panics, on closing the closed channel \<^verbatim>\<open>done\<close>.
\<close>

theorem Close_once:
  assumes "\<not> done_closed s"
  shows "Close s = s\<lparr>dirWatcher_closed := True, done_closed := True\<rparr>
       \<and> Close (Close s) = (Close s)\<lparr>panicked := True\<rparr>"
  using assms by (simp add: Close_def)

theorem Close_once_witness:
  "Close system_example = system_example\<lparr>dirWatcher_closed := True, done_closed := True\<rparr>
   \<and> panicked (Close (Close system_example))"
proof -
  have "\<not> done_closed system_example"
    by (simp add: example_defs)
  from Close_once [OF this]
  have a: "Close system_example = system_example\<lparr>dirWatcher_closed := True, done_closed := True\<rparr>"
    and b: "Close (Close system_example) = (Close system_example)\<lparr>panicked := True\<rparr>"
    by blast+
  have "panicked (Close (Close system_example))"
    by (subst b) simp
  with a show ?thesis by blast
qed

section \<open>The error channels of the notification sources are never read\<close>

lemma erase_erase [simp]: "erase (erase s) = erase s"
  by (simp add: erase_def comp_def)

lemma erase_trackers [simp]: "trackers (erase s) = map (\<lambda>t. t\<lparr>fwErrors := []\<rparr>) (trackers s)"
  by (simp add: erase_def)

lemma erase_fields [simp]:
  "received (erase s) = received s" "logs (erase s) = logs s" "dir (erase s) = dir s"
  "panicked (erase s) = panicked s" "now (erase s) = now s" "fs (erase s) = fs s"
  "done_closed (erase s) = done_closed s" "Events_closed (erase s) = Events_closed s"
  "StableThreshold (erase s) = StableThreshold s" "dirErrors (erase s) = []"
  by (simp_all add: erase_def)
















end
